theory Spec2Isabelle
  imports Main
begin

section \<open>JavaScript values\<close>

text \<open>
  The values that travel through the pipeline of \<^verbatim>\<open>src/index.js\<close> are JSON shaped:
  response bodies, the token payload, the \<^verbatim>\<open>json\<close> option.  A number is kept as the text
  that the language prints for it, so no arithmetic on doubles is needed; an object is an
  association list of its own properties.
\<close>

datatype jsval =
    JUndefined
  | JNull
  | JBool bool
  | JNum string
  | JStr string
  | JArr "jsval list"
  | JObj "(string \<times> jsval) list"

datatype error = TypeError | SyntaxError

text \<open>Truthiness, as used by \<^verbatim>\<open>!options.json\<close> and \<^verbatim>\<open>!body.meta\<close>.\<close>

fun truthy :: "jsval \<Rightarrow> bool" where
  "truthy JUndefined = False"
| "truthy JNull = False"
| "truthy (JBool b) = b"
| "truthy (JNum t) = (t \<noteq> ''0'' \<and> t \<noteq> ''NaN'')"
| "truthy (JStr s) = (s \<noteq> [])"
| "truthy (JArr xs) = True"
| "truthy (JObj kvs) = True"

text \<open>
  Reading a property (\<^verbatim>\<open>body.meta\<close>, \<^verbatim>\<open>token.access_token\<close>): reading from
  \<^verbatim>\<open>undefined\<close> or \<^verbatim>\<open>null\<close> throws a TypeError, an object gives its own property or
  \<^verbatim>\<open>undefined\<close>, every other value gives \<^verbatim>\<open>undefined\<close> for these two names.
\<close>

fun get_prop :: "jsval \<Rightarrow> string \<Rightarrow> error + jsval" where
  "get_prop JUndefined k = Inl TypeError"
| "get_prop JNull k = Inl TypeError"
| "get_prop (JObj kvs) k = Inr (case map_of kvs k of None \<Rightarrow> JUndefined | Some v \<Rightarrow> v)"
| "get_prop v k = Inr JUndefined"

fun join_comma :: "string list \<Rightarrow> string" where
  "join_comma [] = []"
| "join_comma [x] = x"
| "join_comma (x # y # ys) = x @ '','' @ join_comma (y # ys)"

text \<open>
  Conversion to a string, as done by \<^verbatim>\<open>'Bearer ' + self.accessToken\<close> and by
  \<^verbatim>\<open>JSON.parse\<close> on an argument that is not a string.  A plain object prints as
  \<^verbatim>\<open>[object Object]\<close>; when it carries an own property \<^verbatim>\<open>toString\<close> (never callable in a
  JSON value) the conversion finds no usable method and throws a TypeError, here \<open>None\<close>.
  An array joins its elements with commas, \<^verbatim>\<open>null\<close> and \<^verbatim>\<open>undefined\<close> elements printing as
  the empty string.
\<close>

fun to_string :: "jsval \<Rightarrow> string option" where
  "to_string JUndefined = Some ''undefined''"
| "to_string JNull = Some ''null''"
| "to_string (JBool b) = Some (if b then ''true'' else ''false'')"
| "to_string (JNum t) = Some t"
| "to_string (JStr s) = Some s"
| "to_string (JArr xs) =
     map_option join_comma
       (those (map (\<lambda>x. if x = JNull \<or> x = JUndefined then Some [] else to_string x) xs))"
| "to_string (JObj kvs) =
     (if map_of kvs ''toString'' = None then Some ''[object Object]'' else None)"

text \<open>
  \<^verbatim>\<open>JSON.parse\<close> is the language's own function.  Its grammar is a parameter \<open>P\<close> of the
  model: \<open>P s\<close> is the value the text \<open>s\<close> denotes, \<open>None\<close> when the text is not JSON (a
  SyntaxError).  The argument is converted to a string first.
\<close>

type_synonym parser = "string \<Rightarrow> jsval option"

definition JSON_parse :: "parser \<Rightarrow> jsval \<Rightarrow> error + jsval" where
  "JSON_parse P v =
     (case to_string v of
        None \<Rightarrow> Inl TypeError
      | Some s \<Rightarrow> (case P s of None \<Rightarrow> Inl SyntaxError | Some r \<Rightarrow> Inr r))"

section \<open>A JSON grammar to run the model on\<close>

text \<open>
  Every theorem below holds for any grammar \<open>P\<close>.  To evaluate the model on concrete
  texts, \<open>json_text\<close> reads a fragment of JSON: objects, arrays, strings without escape
  sequences, integers of at most fifteen digits, \<^verbatim>\<open>true\<close>, \<^verbatim>\<open>false\<close>, \<^verbatim>\<open>null\<close>, and
  white space between tokens.  Any other text is rejected.  A repeated key keeps its first
  position and its last value.
\<close>

definition is_ws :: "char \<Rightarrow> bool" where
  "is_ws c = (c = CHR '' '' \<or> c = CHR 0x09 \<or> c = CHR 0x0A \<or> c = CHR 0x0D)"

definition is_digit :: "char \<Rightarrow> bool" where
  "is_digit c = (c \<in> set ''0123456789'')"

fun scan_string :: "string \<Rightarrow> (string \<times> string) option" where
  "scan_string [] = None"
| "scan_string (c # cs) =
     (if c = CHR 0x22 then Some ([], cs)
      else if c = CHR 0x5C \<or> of_char c < (32 :: nat) then None
      else map_option (\<lambda>(s, r). (c # s, r)) (scan_string cs))"

definition scan_number :: "string \<Rightarrow> (jsval \<times> string) option" where
  "scan_number s =
     (let neg = (take 1 s = ''-'');
          t = (if neg then drop 1 s else s);
          ds = takeWhile is_digit t;
          r = dropWhile is_digit t
      in if ds = [] \<or> 15 < length ds \<or> (1 < length ds \<and> hd ds = CHR ''0'') then None
         else Some (JNum (if neg \<and> ds \<noteq> ''0'' then CHR ''-'' # ds else ds), r))"

fun put :: "string \<Rightarrow> jsval \<Rightarrow> (string \<times> jsval) list \<Rightarrow> (string \<times> jsval) list" where
  "put k v [] = [(k, v)]"
| "put k v ((k', v') # kvs) = (if k = k' then (k, v) # kvs else (k', v') # put k v kvs)"

fun parse_value :: "nat \<Rightarrow> string \<Rightarrow> (jsval \<times> string) option"
  and parse_elems :: "nat \<Rightarrow> jsval list \<Rightarrow> string \<Rightarrow> (jsval \<times> string) option"
  and parse_members :: "nat \<Rightarrow> (string \<times> jsval) list \<Rightarrow> string \<Rightarrow> (jsval \<times> string) option"
where
  "parse_value 0 s = None"
| "parse_value (Suc n) s =
     (case dropWhile is_ws s of
        [] \<Rightarrow> None
      | c # r \<Rightarrow>
          if c = CHR ''{'' then
            (case dropWhile is_ws r of
               [] \<Rightarrow> None
             | d # r' \<Rightarrow> if d = CHR ''}'' then Some (JObj [], r') else parse_members n [] (d # r'))
          else if c = CHR ''['' then
            (case dropWhile is_ws r of
               [] \<Rightarrow> None
             | d # r' \<Rightarrow> if d = CHR '']'' then Some (JArr [], r') else parse_elems n [] (d # r'))
          else if c = CHR 0x22 then map_option (\<lambda>(t, r'). (JStr t, r')) (scan_string r)
          else if take 4 (c # r) = ''true'' then Some (JBool True, drop 4 (c # r))
          else if take 5 (c # r) = ''false'' then Some (JBool False, drop 5 (c # r))
          else if take 4 (c # r) = ''null'' then Some (JNull, drop 4 (c # r))
          else scan_number (c # r))"
| "parse_elems 0 acc s = None"
| "parse_elems (Suc n) acc s =
     (case parse_value n s of
        None \<Rightarrow> None
      | Some (v, r) \<Rightarrow>
          (case dropWhile is_ws r of
             [] \<Rightarrow> None
           | c # r' \<Rightarrow>
               if c = CHR '','' then parse_elems n (acc @ [v]) r'
               else if c = CHR '']'' then Some (JArr (acc @ [v]), r')
               else None))"
| "parse_members 0 acc s = None"
| "parse_members (Suc n) acc s =
     (case dropWhile is_ws s of
        [] \<Rightarrow> None
      | c # r \<Rightarrow>
          if c \<noteq> CHR 0x22 then None
          else
            (case scan_string r of
               None \<Rightarrow> None
             | Some (k, r1) \<Rightarrow>
                 (case dropWhile is_ws r1 of
                    [] \<Rightarrow> None
                  | c2 # r2 \<Rightarrow>
                      if c2 \<noteq> CHR '':'' then None
                      else
                        (case parse_value n r2 of
                           None \<Rightarrow> None
                         | Some (v, r3) \<Rightarrow>
                             (case dropWhile is_ws r3 of
                                [] \<Rightarrow> None
                              | c3 # r4 \<Rightarrow>
                                  if c3 = CHR '','' then parse_members n (put k v acc) r4
                                  else if c3 = CHR ''}'' then Some (JObj (put k v acc), r4)
                                  else None)))))"

definition json_text :: parser where
  "json_text s =
     (case parse_value (Suc (length s)) s of
        None \<Rightarrow> None
      | Some (v, r) \<Rightarrow> if dropWhile is_ws r = [] then Some v else None)"

section \<open>The connection and its environment\<close>

record response =
  statusCode :: int
  body :: jsval

text \<open>
  The request options.  \<open>ref\<close> is the identity of the options object: the caller builds
  one object per request, and the pipeline passes that same object on (into the transport,
  into the retry queue and back into \<^verbatim>\<open>apiRequest\<close>).
\<close>

record options =
  ref :: nat
  path :: string
  meth :: string
  qs :: jsval
  json :: jsval
  url :: "string option"
  headers :: "(string \<times> string) list"

text \<open>
  A callback is a function of the caller or is missing (\<^verbatim>\<open>callback && callback(...)\<close>);
  the model names it by a number and records every invocation with its two arguments.
\<close>

type_synonym callback = "nat option"

datatype arg = Value jsval | Response response

datatype action =
    Request options
  | TokenRequest string
  | Invoke nat jsval arg

text \<open>
  The fields \<^verbatim>\<open>clientId\<close> to \<^verbatim>\<open>accessToken\<close> are those of the \<^verbatim>\<open>PokitDok\<close> object.  The
  others are the environment: the requests handed to the transport whose completion is
  still to come (\<open>pending_api\<close> with the options and callback their completion handler
  closes over, \<open>pending_token\<close> with the callback the token handler closes over), the
  record of what the pipeline did (\<open>trace\<close>), and the next unused request identity.
\<close>

record connection =
  clientId :: string
  clientSecret :: string
  version :: string
  refreshActive :: bool
  retryQueue :: "(options \<times> callback) list"
  accessToken :: jsval
  pending_api :: "(options \<times> callback) list"
  pending_token :: "callback list"
  trace :: "action list"
  fresh :: nat

datatype outcome = Done connection | Raised error connection

fun final :: "outcome \<Rightarrow> connection" where
  "final (Done s) = s"
| "final (Raised e s) = s"

definition userAgent :: string where
  "userAgent = ''pokitdok-nodejs@0.0.1''"

definition baseUrl :: string where
  "baseUrl = ''https://platform.pokitdok.com''"

text \<open>The constructor: \<^verbatim>\<open>version || 'v4'\<close> replaces a missing or empty version.\<close>

definition PokitDok :: "string \<Rightarrow> string \<Rightarrow> string option \<Rightarrow> connection" where
  "PokitDok cid secret ver =
     \<lparr> clientId = cid,
       clientSecret = secret,
       version = (case ver of None \<Rightarrow> ''v4'' | Some v \<Rightarrow> if v = [] then ''v4'' else v),
       refreshActive = False,
       retryQueue = [],
       accessToken = JNull,
       pending_api = [],
       pending_token = [],
       trace = [],
       fresh = 0 \<rparr>"

text \<open>\<^verbatim>\<open>callback && callback(a, b)\<close>\<close>

definition invoke :: "connection \<Rightarrow> callback \<Rightarrow> jsval \<Rightarrow> arg \<Rightarrow> connection" where
  "invoke s callback a b =
     (case callback of
        None \<Rightarrow> s
      | Some c \<Rightarrow> s\<lparr>trace := trace s @ [Invoke c a b]\<rparr>)"

section \<open>The pipeline\<close>

text \<open>
  \<^verbatim>\<open>apiRequest\<close>, up to the call of the transport: the URL and the headers are written
  into the options, and the request is handed over.  Building the Authorization header
  converts the access token to a string, which can throw.
\<close>

definition stamp :: "string \<Rightarrow> string \<Rightarrow> options \<Rightarrow> options" where
  "stamp ver tok opts =
     opts\<lparr>url := Some (baseUrl @ ''/api/'' @ ver @ path opts),
          headers := [(''Authorization'', ''Bearer '' @ tok), (''User-Agent'', userAgent)]\<rparr>"

definition apiRequest :: "connection \<Rightarrow> options \<Rightarrow> callback \<Rightarrow> error + connection" where
  "apiRequest self opts callback =
     (case to_string (accessToken self) of
        None \<Rightarrow> Inl TypeError
      | Some tok \<Rightarrow>
          (let opts1 = stamp (version self) tok opts
           in Inr (self\<lparr>pending_api := pending_api self @ [(opts1, callback)],
                        trace := trace self @ [Request opts1]\<rparr>)))"

text \<open>
  \<^verbatim>\<open>refreshAccessToken\<close>, up to the call of the transport.  The token request carries the
  Basic credentials \<^verbatim>\<open>clientId:clientSecret\<close> (recorded before their base64 encoding).
\<close>

definition refreshAccessToken :: "connection \<Rightarrow> options \<Rightarrow> callback \<Rightarrow> connection" where
  "refreshAccessToken ctx opts callback =
     (let ctx1 = ctx\<lparr>retryQueue := retryQueue ctx @ [(opts, callback)]\<rparr>
      in if refreshActive ctx1 then ctx1
         else ctx1\<lparr>refreshActive := True,
                   pending_token := pending_token ctx1 @ [callback],
                   trace := trace ctx1 @ [TokenRequest (clientId ctx1 @ '':'' @ clientSecret ctx1)]\<rparr>)"

text \<open>
  The loop of the token handler: while the queue is not empty, pop its last entry and pass
  it to \<^verbatim>\<open>apiRequest\<close>.  An exception of \<^verbatim>\<open>apiRequest\<close> leaves the loop.
\<close>

function replay :: "connection \<Rightarrow> outcome" where
  "replay ctx =
     (if 0 < length (retryQueue ctx) then
        (let reqArgs = last (retryQueue ctx);
             ctx1 = ctx\<lparr>retryQueue := butlast (retryQueue ctx)\<rparr>
         in case apiRequest ctx1 (fst reqArgs) (snd reqArgs) of
              Inl e \<Rightarrow> Raised e ctx1
            | Inr ctx2 \<Rightarrow> replay ctx2)
      else Done ctx)"
  by pat_completeness auto
termination
  by (relation "measure (\<lambda>ctx. length (retryQueue ctx))")
     (auto simp: apiRequest_def Let_def split: option.splits)

text \<open>What the transport passes to a completion handler: \<^verbatim>\<open>(err, res, body)\<close>.\<close>

datatype completion = Completion (err: jsval) (res: "response option") (rbody: jsval)

text \<open>
  The completion handler of the token request (lines 32 to 48).  It closes over the
  callback of the request that started the refresh.
\<close>

definition token_handler :: "parser \<Rightarrow> connection \<Rightarrow> callback \<Rightarrow> completion \<Rightarrow> outcome" where
  "token_handler P ctx callback c =
     (let ctx1 = ctx\<lparr>refreshActive := False\<rparr>
      in case res c of
           None \<Rightarrow> Raised TypeError ctx1
         | Some r \<Rightarrow>
             if statusCode r \<noteq> 200 then
               Done (invoke (ctx1\<lparr>retryQueue := []\<rparr>) callback (body r) (Response r))
             else
               (case JSON_parse P (rbody c) of
                  Inl e \<Rightarrow> Raised e ctx1
                | Inr token \<Rightarrow>
                    (case get_prop token ''access_token'' of
                       Inl e \<Rightarrow> Raised e ctx1
                     | Inr t \<Rightarrow> replay (ctx1\<lparr>accessToken := t\<rparr>))))"

text \<open>
  The completion handler of an API request (lines 119 to 141), in the order of the source:
  the parse of a string body that starts with a brace (lines 121 to 124), the
  classification of the status (lines 126 to 132), the result for a 200 (lines 134 to 140).
\<close>

definition starts_with_brace :: "jsval \<Rightarrow> bool" where
  "starts_with_brace b = (case b of JStr s \<Rightarrow> take 1 s = ''{'' | _ \<Rightarrow> False)"

definition parse_bodies ::
  "parser \<Rightarrow> options \<Rightarrow> response option \<Rightarrow> jsval \<Rightarrow> error + (response option \<times> jsval)" where
  "parse_bodies P opts r b =
     (if \<not> truthy (json opts) \<and> starts_with_brace b then
        (case JSON_parse P b of
           Inl e \<Rightarrow> Inl e
         | Inr b1 \<Rightarrow>
             (case r of
                None \<Rightarrow> Inl TypeError
              | Some r0 \<Rightarrow>
                  (case JSON_parse P (body r0) of
                     Inl e \<Rightarrow> Inl e
                   | Inr rb \<Rightarrow> Inr (Some (r0\<lparr>body := rb\<rparr>), b1))))
      else Inr (r, b))"

definition auth_failure :: "response \<Rightarrow> jsval \<Rightarrow> error + bool" where
  "auth_failure r b =
     (if statusCode r = 401 then Inr True
      else if statusCode r = 400 then
        (case get_prop b ''meta'' of Inl e \<Rightarrow> Inl e | Inr m \<Rightarrow> Inr (\<not> truthy m))
      else Inr False)"

definition apiRequest_handler ::
  "parser \<Rightarrow> connection \<Rightarrow> options \<Rightarrow> callback \<Rightarrow> completion \<Rightarrow> outcome" where
  "apiRequest_handler P self opts callback c =
     (case parse_bodies P opts (res c) (rbody c) of
        Inl e \<Rightarrow> Raised e self
      | Inr (None, b) \<Rightarrow> Raised TypeError self
      | Inr (Some r, b) \<Rightarrow>
          (case auth_failure r b of
             Inl e \<Rightarrow> Raised e self
           | Inr True \<Rightarrow> Done (refreshAccessToken self opts callback)
           | Inr False \<Rightarrow>
               if statusCode r \<noteq> 200 then Done (invoke self callback (body r) (Response r))
               else
                 (let data = (case JSON_parse P b of Inl e \<Rightarrow> b | Inr d \<Rightarrow> d)
                  in Done (invoke self callback JNull (Value data)))))"

section \<open>The event loop\<close>

text \<open>
  Node runs one handler at a time, to its end.  An event is a call of \<^verbatim>\<open>apiRequest\<close> by
  the caller (with a new options object, with or without a callback), or the transport
  completing one of the pending requests.  A callback runs last in its handler, so what it
  does to the connection is a later event.
\<close>

datatype event =
    Call options bool
  | ApiDone nat completion
  | TokenDone nat completion

definition remove_nth :: "nat \<Rightarrow> 'a list \<Rightarrow> 'a list" where
  "remove_nth i xs = take i xs @ drop (Suc i) xs"

fun step :: "parser \<Rightarrow> connection \<Rightarrow> event \<Rightarrow> connection" where
  "step P s (Call opts has_cb) =
     (let s1 = s\<lparr>fresh := Suc (fresh s)\<rparr>
      in case apiRequest s1 (opts\<lparr>ref := fresh s\<rparr>) (if has_cb then Some (fresh s) else None) of
           Inl e \<Rightarrow> s1
         | Inr s2 \<Rightarrow> s2)"
| "step P s (ApiDone i c) =
     (if i < length (pending_api s) then
        final (apiRequest_handler P (s\<lparr>pending_api := remove_nth i (pending_api s)\<rparr>)
                 (fst (pending_api s ! i)) (snd (pending_api s ! i)) c)
      else s)"
| "step P s (TokenDone i c) =
     (if i < length (pending_token s) then
        final (token_handler P (s\<lparr>pending_token := remove_nth i (pending_token s)\<rparr>)
                 (pending_token s ! i) c)
      else s)"

definition run :: "parser \<Rightarrow> connection \<Rightarrow> event list \<Rightarrow> connection" where
  "run P s evs = foldl (step P) s evs"

section \<open>Reading the trace\<close>

fun invoked :: "action list \<Rightarrow> nat list" where
  "invoked [] = []"
| "invoked (Invoke k a b # tr) = k # invoked tr"
| "invoked (Request opts # tr) = invoked tr"
| "invoked (TokenRequest cred # tr) = invoked tr"

fun token_requests :: "action list \<Rightarrow> nat" where
  "token_requests [] = 0"
| "token_requests (TokenRequest cred # tr) = Suc (token_requests tr)"
| "token_requests (Request opts # tr) = token_requests tr"
| "token_requests (Invoke k a b # tr) = token_requests tr"

fun requests :: "action list \<Rightarrow> options list" where
  "requests [] = []"
| "requests (Request opts # tr) = opts # requests tr"
| "requests (TokenRequest cred # tr) = requests tr"
| "requests (Invoke k a b # tr) = requests tr"

definition qrefs :: "connection \<Rightarrow> nat list" where
  "qrefs s = map (\<lambda>e. ref (fst e)) (retryQueue s)"

definition prefs :: "connection \<Rightarrow> nat list" where
  "prefs s = map (\<lambda>e. ref (fst e)) (pending_api s)"

section \<open>Notions used in the statements\<close>

text \<open>What the replay loop hands to the transport: the queue from its end, each entry stamped with the new token.\<close>

definition replayed :: "string \<Rightarrow> string \<Rightarrow> (options \<times> callback) list \<Rightarrow> (options \<times> callback) list" where
  "replayed ver tok q = map (\<lambda>e. (stamp ver tok (fst e), snd e)) (rev q)"

text \<open>
  The invariant of the event loop.  Every request identity is in at most one place (the
  retry queue, the transport, or among the invoked callbacks); at most one token request
  is pending, exactly when \<^verbatim>\<open>refreshActive\<close> is set, and its callback belongs to an entry
  of the queue; a callback carries the identity of its request.
\<close>

definition ids :: "connection \<Rightarrow> nat list" where
  "ids s = qrefs s @ prefs s @ invoked (trace s)"

definition sound :: "connection \<Rightarrow> bool" where
  "sound s \<longleftrightarrow>
     length (pending_token s) \<le> 1 \<and>
     (refreshActive s \<longleftrightarrow> pending_token s \<noteq> []) \<and>
     set (pending_token s) \<subseteq> snd ` set (retryQueue s) \<and>
     distinct (ids s) \<and>
     (\<forall>k \<in> set (ids s). k < fresh s) \<and>
     (\<forall>e \<in> set (retryQueue s @ pending_api s). snd e = None \<or> snd e = Some (ref (fst e)))"

text \<open>
  A request identity is \<open>dead\<close> when it was given out and is neither in the retry queue
  nor with the transport.  Nothing brings it back, and its callback is not invoked again.
\<close>

definition dead :: "nat \<Rightarrow> connection \<Rightarrow> bool" where
  "dead k s \<longleftrightarrow> k < fresh s \<and> k \<notin> set (qrefs s) \<and> k \<notin> set (prefs s)"

fun is_token_done :: "event \<Rightarrow> bool" where
  "is_token_done (TokenDone i c) = True"
| "is_token_done (Call opts h) = False"
| "is_token_done (ApiDone i c) = False"


text \<open>
  \<open>fail_all\<close> is a run of authentication failures with nothing in between: each one
  enters \<^verbatim>\<open>refreshAccessToken\<close>.
\<close>

definition fail_all :: "connection \<Rightarrow> (options \<times> callback) list \<Rightarrow> connection" where
  "fail_all ctx reqs = foldl (\<lambda>c e. refreshAccessToken c (fst e) (snd e)) ctx reqs"

section \<open>Values to run the model on\<close>

definition demo_options :: options where
  "demo_options = \<lparr>ref = 0, path = ''/activities/'', meth = ''GET'', qs = JUndefined,
     json = JUndefined, url = None, headers = []\<rparr>"

definition json_options :: options where
  "json_options = demo_options\<lparr>meth := ''PUT'', json := JObj [(''transition'', JStr ''cancel'')]\<rparr>"

definition respond :: "int \<Rightarrow> jsval \<Rightarrow> completion" where
  "respond code b = Completion JNull (Some \<lparr>statusCode = code, body = b\<rparr>) b"

definition rejected :: response where
  "rejected = \<lparr>statusCode = 400, body = JStr ''invalid_client''\<rparr>"

definition granted :: completion where
  \<open>granted = respond 200 (JStr ''{"access_token":"abc"}'')\<close>


definition two_failed :: "event list" where
  "two_failed =
     [Call demo_options True, Call demo_options True, Call demo_options True,
      ApiDone 0 (respond 401 (JStr ''Unauthorized'')),
      ApiDone 0 (respond 401 (JStr ''Unauthorized''))]"

definition failed_twice :: connection where
  "failed_twice = run json_text (PokitDok ''client'' ''secret'' None) two_failed"

definition three_failed :: connection where
  "three_failed = run json_text (PokitDok ''client'' ''secret'' None)
     (two_failed @ [ApiDone 0 (respond 401 (JStr ''Unauthorized''))])"

text \<open>
  A run in which a first refresh ends in an exception (the token endpoint answers 200 with
  a page that is not JSON), which leaves request 0 in the queue with no refresh in flight;
  then request 1 fails and starts a second refresh.
\<close>

definition stale_events :: "event list" where
  "stale_events =
     [Call demo_options True, Call demo_options True,
      ApiDone 0 (respond 401 (JStr ''Unauthorized'')),
      TokenDone 0 (respond 200 (JStr ''<html>''))]"

definition stale_queue :: connection where
  "stale_queue = run json_text (PokitDok ''client'' ''secret'' None) stale_events"

definition second_refresh :: connection where
  "second_refresh = run json_text (PokitDok ''client'' ''secret'' None)
     (stale_events @ [ApiDone 0 (respond 401 (JStr ''Unauthorized'')), Call demo_options True])"

section \<open>Basic facts\<close>

lemma run_Nil: "run P s [] = s"
  by (simp add: run_def)

declare replay.simps [simp del]

lemma invoked_append [simp]: "invoked (xs @ ys) = invoked xs @ invoked ys"
  by (induction xs rule: invoked.induct) auto

lemma token_requests_append [simp]: "token_requests (xs @ ys) = token_requests xs + token_requests ys"
  by (induction xs rule: token_requests.induct) auto

lemma requests_append [simp]: "requests (xs @ ys) = requests xs @ requests ys"
  by (induction xs rule: requests.induct) auto

lemma invoked_requests [simp]: "invoked (map (\<lambda>e. Request (f e)) q) = []"
  by (induction q) auto

lemma token_requests_requests [simp]: "token_requests (map (\<lambda>e. Request (f e)) q) = 0"
  by (induction q) auto

lemma requests_requests [simp]: "requests (map (\<lambda>e. Request (f e)) q) = map f q"
  by (induction q) auto

lemma ref_stamp [simp]: "ref (stamp ver tok opts) = ref opts"
  by (simp add: stamp_def)

lemma apiRequest_None:
  "to_string (accessToken s) = None \<Longrightarrow> apiRequest s opts cb = Inl TypeError"
  by (simp add: apiRequest_def)

lemma apiRequest_Some:
  "to_string (accessToken s) = Some tok \<Longrightarrow>
   apiRequest s opts cb =
     Inr (s\<lparr>pending_api := pending_api s @ [(stamp (version s) tok opts, cb)],
            trace := trace s @ [Request (stamp (version s) tok opts)]\<rparr>)"
  by (simp add: apiRequest_def Let_def)

lemma replay_Some:
  "to_string (accessToken ctx) = Some tok \<Longrightarrow>
   replay ctx =
     Done (ctx\<lparr>retryQueue := [],
               pending_api := pending_api ctx @ replayed (version ctx) tok (retryQueue ctx),
               trace := trace ctx @ map (\<lambda>e. Request (fst e)) (replayed (version ctx) tok (retryQueue ctx))\<rparr>)"
proof (induction ctx rule: replay.induct)
  case (1 ctx)
  show ?case
  proof (cases "retryQueue ctx" rule: rev_cases)
    case Nil
    then show ?thesis by (subst replay.simps) (simp add: replayed_def)
  next
    case (snoc q e)
    let ?c1 = "ctx\<lparr>retryQueue := q\<rparr>"
    let ?c2 = "?c1\<lparr>pending_api := pending_api ctx @ [(stamp (version ctx) tok (fst e), snd e)],
            trace := trace ctx @ [Request (stamp (version ctx) tok (fst e))]\<rparr>"
    have a: "apiRequest ?c1 (fst e) (snd e) = Inr ?c2"
      using "1.prems" by (simp add: apiRequest_Some)
    have ih: "replay ?c2 = Done (?c2\<lparr>retryQueue := [],
               pending_api := pending_api ?c2 @ replayed (version ?c2) tok (retryQueue ?c2),
               trace := trace ?c2 @ map (\<lambda>e. Request (fst e)) (replayed (version ?c2) tok (retryQueue ?c2))\<rparr>)"
    proof (rule "1.IH"[of e ?c1 ?c2])
      show "0 < length (retryQueue ctx)" using snoc by simp
      show "e = last (retryQueue ctx)" using snoc by simp
      show "?c1 = ctx\<lparr>retryQueue := butlast (retryQueue ctx)\<rparr>" using snoc by simp
      show "apiRequest ?c1 (fst e) (snd e) = Inr ?c2" by (rule a)
      show "to_string (accessToken ?c2) = Some tok" using "1.prems" by simp
    qed
    have "replay ctx = replay ?c2"
      using snoc a by (subst replay.simps) simp
    with ih show ?thesis using snoc by (simp add: replayed_def)
  qed
qed

lemma replay_None:
  "to_string (accessToken ctx) = None \<Longrightarrow>
   replay ctx =
     (if retryQueue ctx = [] then Done ctx
      else Raised TypeError (ctx\<lparr>retryQueue := butlast (retryQueue ctx)\<rparr>))"
  by (subst replay.simps) (simp add: apiRequest_None)

lemma apiRequest_handler_cases:
  "(\<exists>e. apiRequest_handler P s opts cb c = Raised e s) \<or>
   apiRequest_handler P s opts cb c = Done (refreshAccessToken s opts cb) \<or>
   (\<exists>a b. apiRequest_handler P s opts cb c = Done (invoke s cb a b))"
  unfolding apiRequest_handler_def
  by (auto split: sum.splits option.splits bool.splits prod.splits simp: Let_def)

lemma token_handler_cases:
  "(\<exists>e. token_handler P s cb c = Raised e (s\<lparr>refreshActive := False\<rparr>)) \<or>
   (\<exists>a b. token_handler P s cb c = Done (invoke (s\<lparr>refreshActive := False, retryQueue := []\<rparr>) cb a b)) \<or>
   (\<exists>t. token_handler P s cb c = replay (s\<lparr>refreshActive := False, accessToken := t\<rparr>))"
  unfolding token_handler_def
  by (auto split: sum.splits option.splits simp: Let_def)

section \<open>The invariant of the event loop\<close>

lemma sound_init: "sound (PokitDok cid secret ver)"
  by (simp add: sound_def PokitDok_def qrefs_def prefs_def ids_def)

lemma fresh_notin: "\<forall>k \<in> set xs. k < (n::nat) \<Longrightarrow> n \<notin> set xs"
  by auto

lemma sound_call: "sound s \<Longrightarrow> sound (step P s (Call opts h))"
proof (cases "to_string (accessToken s)")
  case None
  assume "sound s"
  then show ?thesis using None
    by (auto simp: sound_def ids_def qrefs_def prefs_def apiRequest_def intro: less_SucI)
next
  case (Some tok)
  assume a: "sound s"
  then have "fresh s \<notin> set (ids s)"
    by (auto simp: sound_def)
  with a show ?thesis using Some
    by (auto simp: sound_def ids_def qrefs_def prefs_def apiRequest_def Let_def ref_stamp
             intro: less_SucI)
qed

lemma refresh_fields:
  "retryQueue (refreshAccessToken s opts cb) = retryQueue s @ [(opts, cb)]"
  "pending_api (refreshAccessToken s opts cb) = pending_api s"
  "invoked (trace (refreshAccessToken s opts cb)) = invoked (trace s)"
  "requests (trace (refreshAccessToken s opts cb)) = requests (trace s)"
  "fresh (refreshAccessToken s opts cb) = fresh s"
  "accessToken (refreshAccessToken s opts cb) = accessToken s"
  "version (refreshAccessToken s opts cb) = version s"
  "refreshActive (refreshAccessToken s opts cb) = True"
  "pending_token (refreshAccessToken s opts cb) =
     (if refreshActive s then pending_token s else pending_token s @ [cb])"
  "token_requests (trace (refreshAccessToken s opts cb)) =
     (if refreshActive s then token_requests (trace s) else Suc (token_requests (trace s)))"
  by (simp_all add: refreshAccessToken_def Let_def)

lemma invoke_fields:
  "retryQueue (invoke s cb a b) = retryQueue s"
  "pending_api (invoke s cb a b) = pending_api s"
  "pending_token (invoke s cb a b) = pending_token s"
  "refreshActive (invoke s cb a b) = refreshActive s"
  "fresh (invoke s cb a b) = fresh s"
  "accessToken (invoke s cb a b) = accessToken s"
  "version (invoke s cb a b) = version s"
  "invoked (trace (invoke s cb a b)) = invoked (trace s) @ (case cb of None \<Rightarrow> [] | Some k \<Rightarrow> [k])"
  "token_requests (trace (invoke s cb a b)) = token_requests (trace s)"
  "requests (trace (invoke s cb a b)) = requests (trace s)"
  by (simp_all add: invoke_def split: option.splits)

lemma remove_nth_split:
  assumes "i < length xs"
  obtains A e B where "xs = A @ e # B" and "remove_nth i xs = A @ B" and "xs ! i = e"
  using assms id_take_nth_drop[of i xs] by (auto simp: remove_nth_def)

lemma sound_refresh:
  assumes "sound (s\<lparr>pending_api := A @ e # B\<rparr>)"
  shows "sound (refreshAccessToken (s\<lparr>pending_api := A @ B\<rparr>) (fst e) (snd e))"
  using assms
  unfolding sound_def ids_def qrefs_def prefs_def refresh_fields
  by (cases "refreshActive s") auto

lemma sound_drop:
  assumes "sound (s\<lparr>pending_api := A @ e # B\<rparr>)"
  shows "sound (s\<lparr>pending_api := A @ B\<rparr>)"
  using assms
  by (auto simp: sound_def ids_def qrefs_def prefs_def)

lemma sound_invoke:
  assumes "sound (s\<lparr>pending_api := A @ e # B\<rparr>)"
  shows "sound (invoke (s\<lparr>pending_api := A @ B\<rparr>) (snd e) a b)"
  using assms
  unfolding sound_def ids_def qrefs_def prefs_def invoke_fields
  by (cases "snd e") auto

lemma sound_api:
  assumes "sound s"
  shows "sound (step P s (ApiDone i c))"
proof (cases "i < length (pending_api s)")
  case False
  then show ?thesis using assms by simp
next
  case True
  then obtain A e B where ab: "pending_api s = A @ e # B"
    and rm: "remove_nth i (pending_api s) = A @ B" and e: "pending_api s ! i = e"
    by (rule remove_nth_split)
  let ?s0 = "s\<lparr>pending_api := A @ B\<rparr>"
  have "s\<lparr>pending_api := A @ e # B\<rparr> = s"
    using ab by simp
  then have s: "sound (s\<lparr>pending_api := A @ e # B\<rparr>)"
    using assms by simp
  have st: "step P s (ApiDone i c) = final (apiRequest_handler P ?s0 (fst e) (snd e) c)"
    using True rm e by simp
  from apiRequest_handler_cases[of P ?s0 "fst e" "snd e" c]
  show ?thesis
    unfolding st
    using sound_refresh[OF s] sound_drop[OF s] sound_invoke[OF s]
    by (elim disjE exE) simp_all
qed

lemma replayed_refs: "map (\<lambda>e. ref (fst e)) (replayed ver tok q) = rev (map (\<lambda>e. ref (fst e)) q)"
  by (simp add: replayed_def rev_map)

lemma replayed_cbs:
  "e \<in> set (replayed ver tok q) \<Longrightarrow> \<exists>e' \<in> set q. ref (fst e) = ref (fst e') \<and> snd e = snd e'"
  by (force simp: replayed_def)

lemma sound_replay:
  assumes "sound (s\<lparr>pending_token := [cb]\<rparr>)"
  shows "sound (final (replay (s\<lparr>pending_token := [], refreshActive := False, accessToken := t\<rparr>)))"
proof (cases "to_string t")
  case None
  show ?thesis
  proof (cases "retryQueue s" rule: rev_cases)
    case Nil
    then show ?thesis using assms None
      by (simp add: replay_None) (auto simp: sound_def ids_def qrefs_def prefs_def)
  next
    case (snoc q e)
    then show ?thesis using assms None
      by (simp add: replay_None) (auto simp: sound_def ids_def qrefs_def prefs_def)
  qed
next
  case (Some tok)
  have cbs: "\<forall>e \<in> set (retryQueue s). snd e = None \<or> snd e = Some (ref (fst e))"
    using assms by (simp add: sound_def)
  have "\<forall>e \<in> set (replayed (version s) tok (retryQueue s)).
          snd e = None \<or> snd e = Some (ref (fst e))"
  proof
    fix e assume "e \<in> set (replayed (version s) tok (retryQueue s))"
    then obtain e' where "e' \<in> set (retryQueue s)" "ref (fst e) = ref (fst e')" "snd e = snd e'"
      using replayed_cbs by blast
    with cbs show "snd e = None \<or> snd e = Some (ref (fst e))" by auto
  qed
  then show ?thesis using assms Some
    by (simp add: replay_Some)
       (auto simp: sound_def ids_def qrefs_def prefs_def replayed_refs)
qed

lemma sound_token_fail:
  assumes "sound (s\<lparr>pending_token := [cb]\<rparr>)"
  shows "sound (invoke (s\<lparr>pending_token := [], refreshActive := False, retryQueue := []\<rparr>) cb a b)"
proof (cases cb)
  case None
  then show ?thesis using assms
    unfolding sound_def ids_def qrefs_def prefs_def invoke_fields by auto
next
  case (Some k)
  from assms obtain opts where q: "(opts, cb) \<in> set (retryQueue s)"
    by (auto simp: sound_def)
  from assms have "\<forall>e \<in> set (retryQueue s). snd e = None \<or> snd e = Some (ref (fst e))"
    by (simp add: sound_def)
  from bspec[OF this q] have "cb = None \<or> cb = Some (ref opts)"
    by simp
  with q have k: "k \<in> set (qrefs s)"
    using Some by (force simp: qrefs_def)
  from assms have "distinct (qrefs s @ prefs s @ invoked (trace s))"
    and "\<forall>k \<in> set (qrefs s). k < fresh s"
    by (auto simp: sound_def ids_def qrefs_def prefs_def)
  with k have "k \<notin> set (prefs s)" "k \<notin> set (invoked (trace s))" "k < fresh s"
    by auto
  then show ?thesis using assms Some
    unfolding sound_def ids_def qrefs_def prefs_def invoke_fields by auto
qed

lemma sound_token_raise:
  assumes "sound (s\<lparr>pending_token := [cb]\<rparr>)"
  shows "sound (s\<lparr>pending_token := [], refreshActive := False\<rparr>)"
  using assms
  by (auto simp: sound_def ids_def qrefs_def prefs_def)

lemma sound_tok:
  assumes "sound s"
  shows "sound (step P s (TokenDone i c))"
proof (cases "i < length (pending_token s)")
  case False
  then show ?thesis using assms by simp
next
  case True
  moreover have "length (pending_token s) \<le> 1"
    using assms by (simp add: sound_def)
  ultimately obtain cb where pt: "pending_token s = [cb]" and i: "i = 0"
    by (cases "pending_token s") auto
  have "s\<lparr>pending_token := [cb]\<rparr> = s"
    using pt by simp
  then have s: "sound (s\<lparr>pending_token := [cb]\<rparr>)"
    using assms by simp
  let ?s0 = "s\<lparr>pending_token := []\<rparr>"
  have st: "step P s (TokenDone i c) = final (token_handler P ?s0 cb c)"
    using pt i by (simp add: remove_nth_def)
  from token_handler_cases[of P ?s0 cb c]
  show ?thesis
    unfolding st
    using sound_replay[OF s] sound_token_fail[OF s] sound_token_raise[OF s]
    by (elim disjE exE) simp_all
qed

lemma sound_step: "sound s \<Longrightarrow> sound (step P s ev)"
  by (cases ev) (simp_all only: sound_call sound_api sound_tok)

lemma run_snoc: "run P s (evs @ [ev]) = step P (run P s evs) ev"
  by (simp add: run_def)

lemma run_append: "run P s (evs @ evs') = run P (run P s evs) evs'"
  by (simp add: run_def)

lemma sound_run: "sound s \<Longrightarrow> sound (run P s evs)"
  by (induction evs rule: rev_induct) (simp_all add: run_snoc sound_step run_def)

lemma sound_reachable: "sound (run P (PokitDok cid secret ver) evs)"
  by (rule sound_run[OF sound_init])

section \<open>Single-flight refresh\<close>

lemma fail_all_active:
  "refreshActive ctx \<Longrightarrow>
   fail_all ctx reqs = ctx\<lparr>retryQueue := retryQueue ctx @ reqs\<rparr>"
  unfolding fail_all_def
  by (induction reqs arbitrary: ctx) (simp_all add: refreshAccessToken_def)

lemma fail_all_idle:
  assumes "\<not> refreshActive ctx" and "reqs \<noteq> []"
  shows "token_requests (trace (fail_all ctx reqs)) = Suc (token_requests (trace ctx))"
    and "retryQueue (fail_all ctx reqs) = retryQueue ctx @ reqs"
    and "pending_token (fail_all ctx reqs) = pending_token ctx @ [snd (hd reqs)]"
proof -
  obtain e es where r: "reqs = e # es" using assms(2) by (cases reqs) auto
  let ?c1 = "refreshAccessToken ctx (fst e) (snd e)"
  have a: "refreshActive ?c1"
    by (simp add: refresh_fields)
  have "fail_all ctx reqs = fail_all ?c1 es"
    by (simp add: r fail_all_def)
  then have f: "fail_all ctx reqs = ?c1\<lparr>retryQueue := retryQueue ?c1 @ es\<rparr>"
    by (simp only: fail_all_active[OF a])
  show "token_requests (trace (fail_all ctx reqs)) = Suc (token_requests (trace ctx))"
    unfolding f using assms(1) by (simp add: refresh_fields)
  show "retryQueue (fail_all ctx reqs) = retryQueue ctx @ reqs"
    unfolding f by (simp add: refresh_fields r)
  show "pending_token (fail_all ctx reqs) = pending_token ctx @ [snd (hd reqs)]"
    unfolding f using assms(1) by (simp add: refresh_fields r)
qed

lemma step_token_count:
  assumes "\<not> is_token_done ev"
  shows "token_requests (trace (step P s ev)) =
           token_requests (trace s) + (if refreshActive (step P s ev) \<and> \<not> refreshActive s then 1 else 0)
         \<and> (refreshActive s \<longrightarrow> refreshActive (step P s ev))"
proof (cases ev)
  case (Call opts h)
  then show ?thesis
    by (auto simp: apiRequest_def Let_def split: option.splits)
next
  case (ApiDone i c)
  show ?thesis
  proof (cases "i < length (pending_api s)")
    case False
    then show ?thesis using ApiDone by simp
  next
    case True
    let ?s0 = "s\<lparr>pending_api := remove_nth i (pending_api s)\<rparr>"
    let ?o = "fst (pending_api s ! i)"
    let ?cb = "snd (pending_api s ! i)"
    have st: "step P s ev = final (apiRequest_handler P ?s0 ?o ?cb c)"
      using True ApiDone by simp
    from apiRequest_handler_cases[of P ?s0 ?o ?cb c]
    show ?thesis
      unfolding st
      by (elim disjE exE) (simp_all add: refresh_fields invoke_fields)
  qed
next
  case (TokenDone i c)
  then show ?thesis using assms by simp
qed

lemma count_compose:
  fixes a b c :: nat
  assumes "b = a + (if q \<and> \<not> p then 1 else 0) \<and> (p \<longrightarrow> q)"
    and "c = b + (if r \<and> \<not> q then 1 else 0) \<and> (q \<longrightarrow> r)"
  shows "c = a + (if r \<and> \<not> p then 1 else 0) \<and> (p \<longrightarrow> r)"
  using assms by (cases p; cases q; cases r) simp_all

lemma run_token_count:
  assumes "list_all (\<lambda>e. \<not> is_token_done e) evs"
  shows "token_requests (trace (run P s evs)) =
           token_requests (trace s) + (if refreshActive (run P s evs) \<and> \<not> refreshActive s then 1 else 0)
         \<and> (refreshActive s \<longrightarrow> refreshActive (run P s evs))"
  using assms
proof (induction evs rule: rev_induct)
  case Nil
  then show ?case by (simp add: run_Nil)
next
  case (snoc ev evs)
  then have ev: "\<not> is_token_done ev" and evs: "list_all (\<lambda>e. \<not> is_token_done e) evs"
    by simp_all
  show ?case
    unfolding run_snoc
    by (rule count_compose[OF snoc.IH[OF evs] step_token_count[OF ev]])
qed

text \<open>
  C1 (single-flight refresh).  In every state the event loop can reach, at most one token
  request is pending, and \<^verbatim>\<open>refreshActive\<close> is set exactly while one is.  Entered with
  \<^verbatim>\<open>refreshActive\<close> set, \<^verbatim>\<open>refreshAccessToken\<close> appends the pair to the retry queue and
  does nothing else: no token request, no other change.  A run of one or more
  authentication failures that starts with no refresh in flight issues exactly one token
  request and queues every failed request.  More generally, over any events that do not
  complete a token request, the number of token requests grows by one if a refresh was
  started and by none otherwise.
\<close>

theorem single_flight:
  "length (pending_token (run P (PokitDok cid secret ver) evs)) \<le> 1
   \<and> refreshActive (run P (PokitDok cid secret ver) evs)
       = (pending_token (run P (PokitDok cid secret ver) evs) \<noteq> [])
   \<and> (refreshActive ctx \<longrightarrow>
        refreshAccessToken ctx opts cb = ctx\<lparr>retryQueue := retryQueue ctx @ [(opts, cb)]\<rparr>)
   \<and> (\<not> refreshActive ctx \<and> reqs \<noteq> [] \<longrightarrow>
        token_requests (trace (fail_all ctx reqs)) = Suc (token_requests (trace ctx))
        \<and> retryQueue (fail_all ctx reqs) = retryQueue ctx @ reqs)
   \<and> (list_all (\<lambda>e. \<not> is_token_done e) evs' \<longrightarrow>
        token_requests (trace (run P s evs')) =
          token_requests (trace s) + (if refreshActive (run P s evs') \<and> \<not> refreshActive s then 1 else 0))"
proof -
  have "sound (run P (PokitDok cid secret ver) evs)"
    by (rule sound_reachable)
  then have a: "length (pending_token (run P (PokitDok cid secret ver) evs)) \<le> 1
      \<and> refreshActive (run P (PokitDok cid secret ver) evs)
       = (pending_token (run P (PokitDok cid secret ver) evs) \<noteq> [])"
    by (simp add: sound_def)
  have b: "refreshActive ctx \<longrightarrow>
        refreshAccessToken ctx opts cb = ctx\<lparr>retryQueue := retryQueue ctx @ [(opts, cb)]\<rparr>"
    by (simp add: refreshAccessToken_def)
  have c: "\<not> refreshActive ctx \<and> reqs \<noteq> [] \<longrightarrow>
        token_requests (trace (fail_all ctx reqs)) = Suc (token_requests (trace ctx))
        \<and> retryQueue (fail_all ctx reqs) = retryQueue ctx @ reqs"
    using fail_all_idle[of ctx reqs] by blast
  have d: "list_all (\<lambda>e. \<not> is_token_done e) evs' \<longrightarrow>
        token_requests (trace (run P s evs')) =
          token_requests (trace s) + (if refreshActive (run P s evs') \<and> \<not> refreshActive s then 1 else 0)"
    using run_token_count[of evs' P s] by blast
  from a b c d show ?thesis by blast
qed

theorem single_flight_witness:
  "refreshActive (run json_text (PokitDok ''client'' ''secret'' None) two_failed)
   \<and> refreshAccessToken (run json_text (PokitDok ''client'' ''secret'' None) two_failed)
         demo_options (Some 7)
       = (run json_text (PokitDok ''client'' ''secret'' None) two_failed)
           \<lparr>retryQueue := retryQueue (run json_text (PokitDok ''client'' ''secret'' None) two_failed)
              @ [(demo_options, Some 7)]\<rparr>
   \<and> \<not> refreshActive (PokitDok ''client'' ''secret'' None)
   \<and> [(demo_options, Some 0), (demo_options, Some 1)] \<noteq> []
   \<and> token_requests (trace (fail_all (PokitDok ''client'' ''secret'' None)
         [(demo_options, Some 0), (demo_options, Some 1)]))
       = Suc (token_requests (trace (PokitDok ''client'' ''secret'' None)))
   \<and> list_all (\<lambda>e. \<not> is_token_done e) two_failed
   \<and> token_requests (trace (run json_text (PokitDok ''client'' ''secret'' None) two_failed))
       = token_requests (trace (PokitDok ''client'' ''secret'' None))
         + (if refreshActive (run json_text (PokitDok ''client'' ''secret'' None) two_failed)
               \<and> \<not> refreshActive (PokitDok ''client'' ''secret'' None) then 1 else 0)"
proof -
  have h1: "refreshActive (run json_text (PokitDok ''client'' ''secret'' None) two_failed)"
    by code_simp
  have h2: "\<not> refreshActive (PokitDok ''client'' ''secret'' None)
      \<and> [(demo_options, Some 0), (demo_options, Some (1::nat))] \<noteq> []"
    by code_simp
  have h3: "list_all (\<lambda>e. \<not> is_token_done e) two_failed"
    by code_simp
  from h1 h2 h3
    single_flight[where P = json_text and cid = "''client''" and secret = "''secret''"
      and ver = None and evs = two_failed
      and ctx = "run json_text (PokitDok ''client'' ''secret'' None) two_failed"
      and opts = demo_options and cb = "Some 7"]
    single_flight[where ctx = "PokitDok ''client'' ''secret'' None"
      and reqs = "[(demo_options, Some 0), (demo_options, Some 1)]"
      and P = json_text and s = "PokitDok ''client'' ''secret'' None" and evs' = two_failed]
  show ?thesis by blast
qed

section \<open>A failed refresh\<close>

lemma sound_cb:
  assumes "sound s" and "e \<in> set (retryQueue s) \<or> e \<in> set (pending_api s)"
  shows "snd e = None \<or> snd e = Some (ref (fst e))"
proof -
  from assms(1) have "\<forall>e \<in> set (retryQueue s @ pending_api s).
      snd e = None \<or> snd e = Some (ref (fst e))"
    by (simp add: sound_def)
  moreover from assms(2) have "e \<in> set (retryQueue s @ pending_api s)" by auto
  ultimately show ?thesis by (rule bspec)
qed

lemma invoked_invoke:
  "set (invoked (trace (invoke s cb a b))) =
     set (invoked (trace s)) \<union> (case cb of None \<Rightarrow> {} | Some k \<Rightarrow> {k})"
  by (simp add: invoke_fields split: option.splits)

lemma dead_call:
  assumes "dead k s"
  shows "dead k (step P s (Call opts h))
    \<and> set (invoked (trace (step P s (Call opts h)))) = set (invoked (trace s))"
  using assms
  by (cases "to_string (accessToken s)")
     (auto simp: dead_def qrefs_def prefs_def apiRequest_def Let_def)

lemma dead_api:
  assumes "sound s" and "dead k s"
  shows "dead k (step P s (ApiDone i c))
    \<and> (k \<in> set (invoked (trace (step P s (ApiDone i c)))) \<longleftrightarrow> k \<in> set (invoked (trace s)))"
proof (cases "i < length (pending_api s)")
  case False
  then show ?thesis using assms by simp
next
  case True
  then obtain A e B where ab: "pending_api s = A @ e # B"
    and rm: "remove_nth i (pending_api s) = A @ B" and e: "pending_api s ! i = e"
    by (rule remove_nth_split)
  let ?s0 = "s\<lparr>pending_api := A @ B\<rparr>"
  have st: "step P s (ApiDone i c) = final (apiRequest_handler P ?s0 (fst e) (snd e) c)"
    using True rm e by simp
  have ne: "ref (fst e) \<noteq> k"
    using assms(2) ab by (auto simp: dead_def prefs_def)
  have cb: "snd e = None \<or> snd e = Some (ref (fst e))"
    using sound_cb[OF assms(1), of e] ab by simp
  have d0: "dead k ?s0"
    using assms(2) ab by (auto simp: dead_def prefs_def qrefs_def)
  have d1: "dead k (refreshAccessToken ?s0 (fst e) (snd e))"
    using d0 ne by (auto simp: dead_def prefs_def qrefs_def refresh_fields)
  have d2: "dead k (invoke ?s0 (snd e) a b)" for a b
    using d0 by (auto simp: dead_def prefs_def qrefs_def invoke_fields)
  have i2: "k \<in> set (invoked (trace (invoke ?s0 (snd e) a b))) \<longleftrightarrow> k \<in> set (invoked (trace s))" for a b
    using cb ne by (auto simp: invoked_invoke)
  from apiRequest_handler_cases[of P ?s0 "fst e" "snd e" c]
  show ?thesis
    unfolding st
    using d0 d1 d2 i2
    by (elim disjE exE) (simp_all add: refresh_fields)
qed

lemma dead_tok:
  assumes "sound s" and "dead k s"
  shows "dead k (step P s (TokenDone i c))
    \<and> (k \<in> set (invoked (trace (step P s (TokenDone i c)))) \<longleftrightarrow> k \<in> set (invoked (trace s)))"
proof (cases "i < length (pending_token s)")
  case False
  then show ?thesis using assms by simp
next
  case True
  moreover have "length (pending_token s) \<le> 1"
    using assms by (simp add: sound_def)
  ultimately obtain cb where pt: "pending_token s = [cb]" and i: "i = 0"
    by (cases "pending_token s") auto
  let ?s0 = "s\<lparr>pending_token := []\<rparr>"
  have st: "step P s (TokenDone i c) = final (token_handler P ?s0 cb c)"
    using pt i by (simp add: remove_nth_def)
  from assms(1) pt obtain e where q: "e \<in> set (retryQueue s)" and se: "snd e = cb"
    by (auto simp: sound_def)
  have "snd e = None \<or> snd e = Some (ref (fst e))"
    using sound_cb[OF assms(1), of e] q by simp
  moreover have "ref (fst e) \<noteq> k"
    using assms(2) q by (auto simp: dead_def qrefs_def)
  ultimately have cb: "cb \<noteq> Some k"
    using se by auto
  have d1: "dead k (?s0\<lparr>refreshActive := False\<rparr>)"
    using assms(2) by (simp add: dead_def prefs_def qrefs_def)
  have d2: "dead k (invoke (?s0\<lparr>refreshActive := False, retryQueue := []\<rparr>) cb a b)" for a b
    using assms(2) by (simp add: dead_def prefs_def qrefs_def invoke_fields)
  have i2: "k \<in> set (invoked (trace (invoke (?s0\<lparr>refreshActive := False, retryQueue := []\<rparr>) cb a b)))
      \<longleftrightarrow> k \<in> set (invoked (trace s))" for a b
    using cb by (auto simp: invoked_invoke split: option.splits)
  have d3: "dead k (final (replay (?s0\<lparr>refreshActive := False, accessToken := t\<rparr>)))
      \<and> (k \<in> set (invoked (trace (final (replay (?s0\<lparr>refreshActive := False, accessToken := t\<rparr>)))))
           \<longleftrightarrow> k \<in> set (invoked (trace s)))" for t
  proof (cases "to_string t")
    case None
    have "k \<notin> set (map (\<lambda>e. ref (fst e)) (butlast (retryQueue s)))"
      using assms(2) by (auto simp: dead_def qrefs_def map_butlast[symmetric] dest: in_set_butlastD)
    then show ?thesis using assms(2) None
      by (simp add: replay_None dead_def prefs_def qrefs_def)
  next
    case (Some tok)
    then show ?thesis using assms(2)
      by (simp add: replay_Some dead_def prefs_def qrefs_def replayed_refs)
  qed
  from token_handler_cases[of P ?s0 cb c]
  show ?thesis
    unfolding st
    using d1 d2 i2 d3
    by (elim disjE exE) simp_all
qed

lemma dead_step:
  assumes "sound s" and "dead k s"
  shows "dead k (step P s ev)
    \<and> (k \<in> set (invoked (trace (step P s ev))) \<longleftrightarrow> k \<in> set (invoked (trace s)))"
proof (cases ev)
  case (Call opts h)
  then show ?thesis using dead_call[OF assms(2), of P opts h] by simp
next
  case (ApiDone i c)
  then show ?thesis using dead_api[OF assms, of P i c] by simp
next
  case (TokenDone i c)
  then show ?thesis using dead_tok[OF assms, of P i c] by simp
qed

lemma dead_run:
  assumes "sound s" and "dead k s"
  shows "dead k (run P s evs)
    \<and> (k \<in> set (invoked (trace (run P s evs))) \<longleftrightarrow> k \<in> set (invoked (trace s)))"
proof (induction evs rule: rev_induct)
  case Nil
  then show ?case using assms by (simp add: run_Nil)
next
  case (snoc ev evs)
  then have d: "dead k (run P s evs)" by simp
  from dead_step[OF sound_run[OF assms(1)] d] snoc show ?case
    by (simp add: run_snoc)
qed

lemma step_keeps_queue:
  assumes "\<not> is_token_done ev"
  shows "take (length (retryQueue s)) (retryQueue (step P s ev)) = retryQueue s"
proof (cases ev)
  case (Call opts h)
  then show ?thesis
    by (auto simp: apiRequest_def Let_def split: option.splits)
next
  case (ApiDone i c)
  show ?thesis
  proof (cases "i < length (pending_api s)")
    case False
    then show ?thesis using ApiDone by simp
  next
    case True
    let ?s0 = "s\<lparr>pending_api := remove_nth i (pending_api s)\<rparr>"
    let ?o = "fst (pending_api s ! i)"
    let ?cb = "snd (pending_api s ! i)"
    have st: "step P s ev = final (apiRequest_handler P ?s0 ?o ?cb c)"
      using True ApiDone by simp
    from apiRequest_handler_cases[of P ?s0 ?o ?cb c]
    show ?thesis
      unfolding st
      by (elim disjE exE) (simp_all add: refresh_fields invoke_fields)
  qed
next
  case (TokenDone i c)
  then show ?thesis using assms by simp
qed

lemma step_keeps_pending_token:
  assumes "refreshActive s" and "\<not> is_token_done ev"
  shows "pending_token (step P s ev) = pending_token s \<and> refreshActive (step P s ev)"
proof (cases ev)
  case (Call opts h)
  then show ?thesis using assms(1)
    by (auto simp: apiRequest_def Let_def split: option.splits)
next
  case (ApiDone i c)
  show ?thesis
  proof (cases "i < length (pending_api s)")
    case False
    then show ?thesis using ApiDone assms(1) by simp
  next
    case True
    let ?s0 = "s\<lparr>pending_api := remove_nth i (pending_api s)\<rparr>"
    let ?o = "fst (pending_api s ! i)"
    let ?cb = "snd (pending_api s ! i)"
    have st: "step P s ev = final (apiRequest_handler P ?s0 ?o ?cb c)"
      using True ApiDone by simp
    from apiRequest_handler_cases[of P ?s0 ?o ?cb c]
    show ?thesis
      unfolding st using assms(1)
      by (elim disjE exE) (simp_all add: refresh_fields invoke_fields)
  qed
next
  case (TokenDone i c)
  then show ?thesis using assms by simp
qed

lemma run_keeps_pending_token:
  assumes "refreshActive s" and "list_all (\<lambda>e. \<not> is_token_done e) evs"
  shows "pending_token (run P s evs) = pending_token s \<and> refreshActive (run P s evs)"
  using assms(2)
proof (induction evs rule: rev_induct)
  case Nil
  then show ?case using assms(1) by (simp add: run_Nil)
next
  case (snoc ev evs)
  then have ev: "\<not> is_token_done ev" and ih: "pending_token (run P s evs) = pending_token s"
      "refreshActive (run P s evs)"
    by simp_all
  from step_keeps_pending_token[OF ih(2) ev, of P] ih(1) show ?case
    by (simp add: run_snoc)
qed

lemma run_keeps_queue:
  assumes "list_all (\<lambda>e. \<not> is_token_done e) evs"
  shows "set (retryQueue s) \<subseteq> set (retryQueue (run P s evs))"
  using assms
proof (induction evs rule: rev_induct)
  case Nil
  then show ?case by (simp add: run_Nil)
next
  case (snoc ev evs)
  then have ev: "\<not> is_token_done ev" and ih: "set (retryQueue s) \<subseteq> set (retryQueue (run P s evs))"
    by simp_all
  have "set (retryQueue (run P s evs)) \<subseteq> set (retryQueue (step P (run P s evs) ev))"
    using step_keeps_queue[OF ev, of "run P s evs" P] set_take_subset by metis
  with ih show ?case by (simp add: run_snoc)
qed

lemma refresh_start:
  assumes "\<not> refreshActive s0" and "refreshActive (step P s0 (ApiDone i c0))"
  shows "i < length (pending_api s0)
    \<and> pending_token (step P s0 (ApiDone i c0)) = pending_token s0 @ [snd (pending_api s0 ! i)]
    \<and> retryQueue (step P s0 (ApiDone i c0)) = retryQueue s0 @ [pending_api s0 ! i]"
proof -
  have i: "i < length (pending_api s0)"
    using assms by (cases "i < length (pending_api s0)") simp_all
  let ?s0 = "s0\<lparr>pending_api := remove_nth i (pending_api s0)\<rparr>"
  let ?o = "fst (pending_api s0 ! i)"
  let ?cb = "snd (pending_api s0 ! i)"
  have st: "step P s0 (ApiDone i c0) = final (apiRequest_handler P ?s0 ?o ?cb c0)"
    using i by simp
  from apiRequest_handler_cases[of P ?s0 ?o ?cb c0] assms
  have "step P s0 (ApiDone i c0) = refreshAccessToken ?s0 ?o ?cb"
    unfolding st by (elim disjE exE) (simp_all add: invoke_fields)
  then show ?thesis
    using i assms(1) by (simp add: refresh_fields)
qed

text \<open>
  C2 (refresh failure).  When the token endpoint answers with a status other than 200,
  the handler clears \<^verbatim>\<open>refreshActive\<close>, empties the retry queue, and invokes the callback
  it closes over (when there is one) with the body of the token response as the error and
  the response as second argument; nothing else is invoked.  That callback is the one of
  the request that started the refresh: when a completion switches \<^verbatim>\<open>refreshActive\<close> on
  and no token completion comes in between, the callback of the pending token request is
  the callback of the request just completed, and that request is in the queue.  After the
  failed refresh, whatever events follow, the callback of any other entry that was in the
  queue is never invoked.
\<close>

theorem refresh_failure:
  assumes "res c = Some r" and "statusCode r \<noteq> 200"
    and "s = run P (PokitDok cid secret ver) evs"
    and "pending_token s = [cb]"
    and "s' = step P s (TokenDone 0 c)"
  shows "token_handler P ctx cb c =
           Done (invoke (ctx\<lparr>refreshActive := False, retryQueue := []\<rparr>) cb (body r) (Response r))
     \<and> refreshActive s' = False \<and> retryQueue s' = [] \<and> pending_token s' = []
     \<and> trace s' = trace s @ (case cb of None \<Rightarrow> [] | Some k \<Rightarrow> [Invoke k (body r) (Response r)])
     \<and> (\<forall>e \<in> set (retryQueue s). \<forall>k. snd e = Some k \<and> snd e \<noteq> cb \<longrightarrow>
           k \<notin> set (invoked (trace (run P s' evs'))))
     \<and> (s0 = run P (PokitDok cid secret ver) evs0 \<and> \<not> refreshActive s0
          \<and> refreshActive (step P s0 (ApiDone i c0))
          \<and> list_all (\<lambda>e. \<not> is_token_done e) evs1
          \<and> s = run P (step P s0 (ApiDone i c0)) evs1 \<longrightarrow>
        i < length (pending_api s0) \<and> cb = snd (pending_api s0 ! i)
        \<and> retryQueue (step P s0 (ApiDone i c0)) = retryQueue s0 @ [pending_api s0 ! i]
        \<and> pending_api s0 ! i \<in> set (retryQueue s))"
proof -
  have h: "token_handler P ctx cb c =
      Done (invoke (ctx\<lparr>refreshActive := False, retryQueue := []\<rparr>) cb (body r) (Response r))" for ctx
    using assms(1,2) by (simp add: token_handler_def)
  have snd: "sound s"
    unfolding assms(3) by (rule sound_reachable)
  have s': "s' = invoke (s\<lparr>pending_token := [], refreshActive := False, retryQueue := []\<rparr>)
      cb (body r) (Response r)"
    unfolding assms(5) using assms(4) by (simp add: remove_nth_def h)
  have snd': "sound s'"
    unfolding assms(5) by (rule sound_step[OF snd])
  have tr: "trace s' = trace s @ (case cb of None \<Rightarrow> [] | Some k \<Rightarrow> [Invoke k (body r) (Response r)])"
    unfolding s' by (simp add: invoke_def split: option.splits)
  have never: "k \<notin> set (invoked (trace (run P s' evs')))"
    if e: "e \<in> set (retryQueue s)" and k: "snd e = Some k" and ne: "snd e \<noteq> cb" for e k
  proof -
    have "snd e = None \<or> snd e = Some (ref (fst e))"
      using sound_cb[OF snd, of e] e by simp
    with k have "k = ref (fst e)" by simp
    with e have kq: "k \<in> set (qrefs s)" by (auto simp: qrefs_def)
    from snd have "distinct (qrefs s @ prefs s @ invoked (trace s))"
      and "\<forall>j \<in> set (qrefs s). j < fresh s"
      by (auto simp: sound_def ids_def)
    with kq have kf: "k < fresh s" and kp: "k \<notin> set (prefs s)" and ki: "k \<notin> set (invoked (trace s))"
      by auto
    have d: "dead k s'"
      unfolding s' using kf kp by (simp add: dead_def qrefs_def prefs_def invoke_fields)
    have "k \<notin> set (invoked (trace s'))"
      unfolding tr using ki k ne by (auto split: option.splits)
    with dead_run[OF snd' d, of P evs'] show ?thesis by simp
  qed
  have a: "refreshActive s' = False \<and> retryQueue s' = [] \<and> pending_token s' = []"
    by (simp add: s' invoke_fields)
  have link: "i < length (pending_api s0) \<and> cb = snd (pending_api s0 ! i)
        \<and> retryQueue (step P s0 (ApiDone i c0)) = retryQueue s0 @ [pending_api s0 ! i]
        \<and> pending_api s0 ! i \<in> set (retryQueue s)"
    if s0: "s0 = run P (PokitDok cid secret ver) evs0" and idle: "\<not> refreshActive s0"
      and started: "refreshActive (step P s0 (ApiDone i c0))"
      and quiet: "list_all (\<lambda>e. \<not> is_token_done e) evs1"
      and s: "s = run P (step P s0 (ApiDone i c0)) evs1"
  proof -
    have "sound s0"
      unfolding s0 by (rule sound_reachable)
    with idle have none: "pending_token s0 = []"
      by (simp add: sound_def)
    from refresh_start[OF idle started]
    have i: "i < length (pending_api s0)"
      and pt: "pending_token (step P s0 (ApiDone i c0)) = pending_token s0 @ [snd (pending_api s0 ! i)]"
      and q: "retryQueue (step P s0 (ApiDone i c0)) = retryQueue s0 @ [pending_api s0 ! i]"
      by blast+
    from run_keeps_pending_token[OF started quiet, of P] pt none
    have "pending_token s = [snd (pending_api s0 ! i)]"
      unfolding s by simp
    with assms(4) have cb: "cb = snd (pending_api s0 ! i)"
      by simp
    from run_keeps_queue[OF quiet, of "step P s0 (ApiDone i c0)" P] q
    have "pending_api s0 ! i \<in> set (retryQueue s)"
      unfolding s by auto
    with i cb q show ?thesis by blast
  qed
  from h[of ctx] a tr never link show ?thesis by blast
qed

theorem refresh_failure_witness:
  "res (Completion JNull (Some rejected) (body rejected)) = Some rejected
   \<and> statusCode rejected \<noteq> 200
   \<and> \<not> refreshActive stale_queue
   \<and> map snd (retryQueue stale_queue) = [Some 0]
   \<and> snd (pending_api stale_queue ! 0) = Some 1
   \<and> refreshActive (step json_text stale_queue (ApiDone 0 (respond 401 (JStr ''Unauthorized''))))
   \<and> list_all (\<lambda>e. \<not> is_token_done e) [Call demo_options True]
   \<and> pending_token second_refresh = [Some 1]
   \<and> map snd (retryQueue second_refresh) = [Some 0, Some 1]
   \<and> Some 1 = snd (pending_api stale_queue ! 0)
   \<and> retryQueue (step json_text second_refresh
         (TokenDone 0 (Completion JNull (Some rejected) (body rejected)))) = []
   \<and> trace (step json_text second_refresh
         (TokenDone 0 (Completion JNull (Some rejected) (body rejected))))
       = trace second_refresh @ [Invoke 1 (body rejected) (Response rejected)]
   \<and> 0 \<notin> set (invoked (trace (run json_text
         (step json_text second_refresh
            (TokenDone 0 (Completion JNull (Some rejected) (body rejected))))
         [ApiDone 0 (respond 200 (JStr ''{}''))])))"
proof -
  have h1: "res (Completion JNull (Some rejected) (body rejected)) = Some rejected"
    by simp
  have h2: "statusCode rejected \<noteq> 200"
    by (simp add: rejected_def)
  have h3: "pending_token second_refresh = [Some 1]"
    by code_simp
  have h4: "map snd (retryQueue second_refresh) = [Some 0, Some 1]"
    by code_simp
  then have h5: "retryQueue second_refresh ! 0 \<in> set (retryQueue second_refresh)"
    and h6: "snd (retryQueue second_refresh ! 0) = Some 0"
    and h7: "snd (retryQueue second_refresh ! 0) \<noteq> Some 1"
    by (cases "retryQueue second_refresh"; auto)+
  have g1: "stale_queue = run json_text (PokitDok ''client'' ''secret'' None) stale_events"
    by (rule stale_queue_def)
  have g2: "\<not> refreshActive stale_queue"
    by code_simp
  have g3: "refreshActive (step json_text stale_queue (ApiDone 0 (respond 401 (JStr ''Unauthorized''))))"
    by code_simp
  have g4: "list_all (\<lambda>e. \<not> is_token_done e) [Call demo_options True]"
    by simp
  have g5: "second_refresh =
      run json_text (step json_text stale_queue (ApiDone 0 (respond 401 (JStr ''Unauthorized''))))
        [Call demo_options True]"
    by (simp add: second_refresh_def stale_queue_def run_def)
  have g6: "map snd (retryQueue stale_queue) = [Some 0]"
    by code_simp
  have g7: "snd (pending_api stale_queue ! 0) = Some 1"
    by code_simp
  note t = refresh_failure[OF h1 h2 second_refresh_def h3 refl,
      where ctx = second_refresh and evs' = "[ApiDone 0 (respond 200 (JStr ''{}''))]"
        and ?s0.0 = stale_queue and ?evs0.0 = stale_events and i = 0
        and ?c0.0 = "respond 401 (JStr ''Unauthorized'')" and ?evs1.0 = "[Call demo_options True]"]
  from t h5 h6 h7 have n: "0 \<notin> set (invoked (trace (run json_text
         (step json_text second_refresh
            (TokenDone 0 (Completion JNull (Some rejected) (body rejected))))
         [ApiDone 0 (respond 200 (JStr ''{}''))])))"
    by blast
  from t g1 g2 g3 g4 g5 have l: "Some 1 = snd (pending_api stale_queue ! 0)"
    by blast
  from t have "retryQueue (step json_text second_refresh
         (TokenDone 0 (Completion JNull (Some rejected) (body rejected)))) = []"
    and "trace (step json_text second_refresh
         (TokenDone 0 (Completion JNull (Some rejected) (body rejected))))
       = trace second_refresh @ [Invoke 1 (body rejected) (Response rejected)]"
    by simp_all
  with n l h1 h2 h3 h4 g2 g3 g4 g6 g7 show ?thesis by simp
qed

section \<open>A successful refresh\<close>

text \<open>
  C3 (replay order).  When the token endpoint answers 200 with a payload that parses, has
  an \<^verbatim>\<open>access_token\<close> to read, and that token converts to a string for the Authorization
  header, the handler stores the token, clears \<^verbatim>\<open>refreshActive\<close>, and passes every queued
  entry to \<^verbatim>\<open>apiRequest\<close> again, last entry first, each with its own callback and with the
  new token in its header; the queue ends empty.  Requests queued in the order A, B, C go
  out in the order C, B, A.
\<close>

theorem lifo_replay:
  assumes "res c = Some r" and "statusCode r = 200"
    and "JSON_parse P (rbody c) = Inr token"
    and "get_prop token ''access_token'' = Inr t"
    and "to_string t = Some tok"
  shows "token_handler P ctx cb c =
           Done (ctx\<lparr>refreshActive := False, accessToken := t, retryQueue := [],
                     pending_api := pending_api ctx
                        @ map (\<lambda>e. (stamp (version ctx) tok (fst e), snd e)) (rev (retryQueue ctx)),
                     trace := trace ctx
                        @ map (\<lambda>e. Request (stamp (version ctx) tok (fst e))) (rev (retryQueue ctx))\<rparr>)
     \<and> (retryQueue ctx = [A, B, C] \<longrightarrow>
          requests (trace (final (token_handler P ctx cb c))) =
            requests (trace ctx) @ [stamp (version ctx) tok (fst C), stamp (version ctx) tok (fst B),
                                    stamp (version ctx) tok (fst A)])
     \<and> headers (stamp (version ctx) tok opts) =
          [(''Authorization'', ''Bearer '' @ tok), (''User-Agent'', userAgent)]"
proof -
  have a: "token_handler P ctx cb c = replay (ctx\<lparr>refreshActive := False, accessToken := t\<rparr>)"
    using assms(1-4) by (simp add: token_handler_def)
  have b: "token_handler P ctx cb c =
           Done (ctx\<lparr>refreshActive := False, accessToken := t, retryQueue := [],
                     pending_api := pending_api ctx
                        @ map (\<lambda>e. (stamp (version ctx) tok (fst e), snd e)) (rev (retryQueue ctx)),
                     trace := trace ctx
                        @ map (\<lambda>e. Request (stamp (version ctx) tok (fst e))) (rev (retryQueue ctx))\<rparr>)"
    unfolding a using assms(5)
    by (simp add: replay_Some replayed_def comp_def)
  have c: "retryQueue ctx = [A, B, C] \<longrightarrow>
          requests (trace (final (token_handler P ctx cb c))) =
            requests (trace ctx) @ [stamp (version ctx) tok (fst C), stamp (version ctx) tok (fst B),
                                    stamp (version ctx) tok (fst A)]"
    unfolding b by simp
  have d: "headers (stamp (version ctx) tok opts) =
          [(''Authorization'', ''Bearer '' @ tok), (''User-Agent'', userAgent)]"
    by (simp add: stamp_def)
  from b c d show ?thesis by blast
qed

theorem lifo_replay_witness:
  \<open>res granted = Some \<lparr>statusCode = 200, body = JStr ''{"access_token":"abc"}''\<rparr>
   \<and> JSON_parse json_text (rbody granted) = Inr (JObj [(''access_token'', JStr ''abc'')])
   \<and> get_prop (JObj [(''access_token'', JStr ''abc'')]) ''access_token'' = Inr (JStr ''abc'')
   \<and> to_string (JStr ''abc'') = Some ''abc''
   \<and> map (\<lambda>e. ref (fst e)) (retryQueue three_failed) = [0, 1, 2]
   \<and> map ref (requests (trace (final (token_handler json_text three_failed (Some 0) granted))))
       = map ref (requests (trace three_failed)) @ [2, 1, 0]\<close>
proof -
  have h1: \<open>res granted = Some \<lparr>statusCode = 200, body = JStr ''{"access_token":"abc"}''\<rparr>\<close>
    by code_simp
  have h2: \<open>statusCode \<lparr>statusCode = 200, body = JStr ''{"access_token":"abc"}''\<rparr> = 200\<close>
    by simp
  have h3: "JSON_parse json_text (rbody granted) = Inr (JObj [(''access_token'', JStr ''abc'')])"
    by code_simp
  have h4: "get_prop (JObj [(''access_token'', JStr ''abc'')]) ''access_token'' = Inr (JStr ''abc'')"
    by simp
  have h5: "to_string (JStr ''abc'') = Some ''abc''"
    by simp
  have h6: "map (\<lambda>e. ref (fst e)) (retryQueue three_failed) = [0, 1, 2]"
    by code_simp
  then obtain A B C where q: "retryQueue three_failed = [A, B, C]"
    and r: "ref (fst A) = 0" "ref (fst B) = 1" "ref (fst C) = 2"
    by (cases "retryQueue three_failed" rule: list.exhaust; auto)
  from lifo_replay[OF h1 h2 h3 h4 h5, of three_failed "Some 0" A B C] q r
  have "map ref (requests (trace (final (token_handler json_text three_failed (Some 0) granted))))
       = map ref (requests (trace three_failed)) @ [2, 1, 0]"
    by simp
  with h1 h3 h4 h5 h6 show ?thesis by blast
qed

section \<open>Membership in the retry queue\<close>

text \<open>
  What holds of the queue.  \<^verbatim>\<open>refreshAccessToken\<close> appends the pair to the retry queue
  whether or not a refresh is in flight.  A completion that reaches the classification and
  is classified as an authentication failure ends in \<^verbatim>\<open>refreshAccessToken\<close> with the
  options and the callback of the request.  In every state the event loop can reach, no
  request identity occurs twice among the queue and the requests with the transport.  An
  event other than the completion of a token request leaves every entry of the queue in
  its place.
\<close>

lemma queue_membership:
  "retryQueue (refreshAccessToken ctx opts cb) = retryQueue ctx @ [(opts, cb)]
   \<and> (parse_bodies P opts (res c) (rbody c) = Inr (Some r, b) \<and> auth_failure r b = Inr True \<longrightarrow>
        apiRequest_handler P ctx opts cb c = Done (refreshAccessToken ctx opts cb))
   \<and> distinct (qrefs (run P (PokitDok cid secret ver) evs) @ prefs (run P (PokitDok cid secret ver) evs))
   \<and> (\<not> is_token_done ev \<longrightarrow>
        take (length (retryQueue s)) (retryQueue (step P s ev)) = retryQueue s)"
proof -
  have a: "retryQueue (refreshAccessToken ctx opts cb) = retryQueue ctx @ [(opts, cb)]"
    by (simp add: refresh_fields)
  have b: "parse_bodies P opts (res c) (rbody c) = Inr (Some r, b) \<and> auth_failure r b = Inr True \<longrightarrow>
        apiRequest_handler P ctx opts cb c = Done (refreshAccessToken ctx opts cb)"
    by (simp add: apiRequest_handler_def)
  have "sound (run P (PokitDok cid secret ver) evs)"
    by (rule sound_reachable)
  then have c: "distinct (qrefs (run P (PokitDok cid secret ver) evs) @ prefs (run P (PokitDok cid secret ver) evs))"
    by (auto simp: sound_def ids_def)
  have d: "\<not> is_token_done ev \<longrightarrow>
        take (length (retryQueue s)) (retryQueue (step P s ev)) = retryQueue s"
    using step_keeps_queue[of ev s P] by blast
  from a b c d show ?thesis by blast
qed

lemma queue_membership_example:
  "parse_bodies json_text (fst (pending_api failed_twice ! 0))
      (res (respond 401 (JStr ''Unauthorized''))) (rbody (respond 401 (JStr ''Unauthorized'')))
     = Inr (Some \<lparr>statusCode = 401, body = JStr ''Unauthorized''\<rparr>, JStr ''Unauthorized'')
   \<and> auth_failure \<lparr>statusCode = 401, body = JStr ''Unauthorized''\<rparr> (JStr ''Unauthorized'') = Inr True
   \<and> apiRequest_handler json_text failed_twice (fst (pending_api failed_twice ! 0)) (Some 2)
        (respond 401 (JStr ''Unauthorized''))
       = Done (refreshAccessToken failed_twice (fst (pending_api failed_twice ! 0)) (Some 2))
   \<and> \<not> is_token_done (ApiDone 0 (respond 401 (JStr ''Unauthorized'')))
   \<and> take (length (retryQueue failed_twice))
         (retryQueue (step json_text failed_twice (ApiDone 0 (respond 401 (JStr ''Unauthorized'')))))
       = retryQueue failed_twice
   \<and> qrefs (step json_text failed_twice (ApiDone 0 (respond 401 (JStr ''Unauthorized'')))) = [0, 1, 2]"
proof -
  have h1: "parse_bodies json_text (fst (pending_api failed_twice ! 0))
      (res (respond 401 (JStr ''Unauthorized''))) (rbody (respond 401 (JStr ''Unauthorized'')))
     = Inr (Some \<lparr>statusCode = 401, body = JStr ''Unauthorized''\<rparr>, JStr ''Unauthorized'')"
    by code_simp
  have h2: "auth_failure \<lparr>statusCode = 401, body = JStr ''Unauthorized''\<rparr> (JStr ''Unauthorized'') = Inr True"
    by code_simp
  have h3: "\<not> is_token_done (ApiDone 0 (respond 401 (JStr ''Unauthorized'')))"
    by simp
  have h4: "qrefs (step json_text failed_twice (ApiDone 0 (respond 401 (JStr ''Unauthorized'')))) = [0, 1, 2]"
    by code_simp
  from h1 h2 h3 h4
    queue_membership[where P = json_text and ctx = failed_twice
      and opts = "fst (pending_api failed_twice ! 0)" and cb = "Some 2"
      and c = "respond 401 (JStr ''Unauthorized'')"
      and r = "\<lparr>statusCode = 401, body = JStr ''Unauthorized''\<rparr>" and b = "JStr ''Unauthorized''"
      and ev = "ApiDone 0 (respond 401 (JStr ''Unauthorized''))" and s = failed_twice]
  show ?thesis by blast
qed

text \<open>
  C4 (queue membership).  The claim: no request that failed with an authentication failure
  is lost; it is in the retry queue from its failure on.  A 401 whose body starts with a
  brace and is not JSON throws at line 122, before line 126 reads the status (and a 400
  whose parsed body is \<^verbatim>\<open>null\<close> throws at line 126 on \<^verbatim>\<open>body.meta\<close>):
  \<^verbatim>\<open>refreshAccessToken\<close> is never called.  After the run of one call and that completion
  the request is nowhere: not in the queue, not with the transport, its callback not
  invoked, and no refresh is pending.
\<close>

theorem auth_failed_request_lost:
  "apiRequest_handler json_text s demo_options cb (respond 401 (JStr ''{oops'')) = Raised SyntaxError s
   \<and> apiRequest_handler json_text s json_options cb (respond 400 JNull) = Raised TypeError s
   \<and> ids (run json_text (PokitDok ''client'' ''secret'' None)
        [Call demo_options True, ApiDone 0 (respond 401 (JStr ''{oops''))]) = []
   \<and> pending_token (run json_text (PokitDok ''client'' ''secret'' None)
        [Call demo_options True, ApiDone 0 (respond 401 (JStr ''{oops''))]) = []"
proof -
  have "json_text ''{oops'' = None"
    by code_simp
  then have a: "apiRequest_handler json_text s demo_options cb (respond 401 (JStr ''{oops''))
      = Raised SyntaxError s"
    by (simp add: apiRequest_handler_def parse_bodies_def JSON_parse_def
          starts_with_brace_def demo_options_def respond_def)
  have b: "apiRequest_handler json_text s json_options cb (respond 400 JNull) = Raised TypeError s"
    by (simp add: apiRequest_handler_def parse_bodies_def auth_failure_def
          starts_with_brace_def demo_options_def json_options_def respond_def)
  have c: "ids (run json_text (PokitDok ''client'' ''secret'' None)
        [Call demo_options True, ApiDone 0 (respond 401 (JStr ''{oops''))]) = []"
    by code_simp
  have d: "pending_token (run json_text (PokitDok ''client'' ''secret'' None)
        [Call demo_options True, ApiDone 0 (respond 401 (JStr ''{oops''))]) = []"
    by code_simp
  from a b c d show ?thesis by blast
qed

section \<open>Callbacks are invoked at most once\<close>

lemma distinct_filter_le1: "distinct xs \<Longrightarrow> length (filter (\<lambda>j. j = k) xs) \<le> 1"
  by (induction xs) (auto simp: filter_empty_conv)

text \<open>
  C8 (at most one invocation).  Every call of \<^verbatim>\<open>apiRequest\<close> by the caller brings its own
  callback.  Whatever events follow, through any number of refreshes and replays, no
  callback is invoked twice.
\<close>

theorem callback_at_most_once:
  "distinct (invoked (trace (run P (PokitDok cid secret ver) evs)))
   \<and> length (filter (\<lambda>j. j = k) (invoked (trace (run P (PokitDok cid secret ver) evs)))) \<le> 1"
proof -
  have "sound (run P (PokitDok cid secret ver) evs)"
    by (rule sound_reachable)
  then have d: "distinct (invoked (trace (run P (PokitDok cid secret ver) evs)))"
    by (simp add: sound_def ids_def)
  from d distinct_filter_le1[OF d, of k] show ?thesis
    by blast
qed

section \<open>The access token before the first refresh\<close>





section \<open>Classification of a completed API request\<close>




text \<open>
  What the handler does once the parse at lines 121 to 124 has not thrown: a status that
  is neither an authentication failure nor 200 goes to the callback with the body of the
  response and the response; a 200 goes to the callback with \<^verbatim>\<open>null\<close> and the parsed body,
  or the body as it is when it does not parse.
\<close>

lemma handler_passthrough:
  assumes "parse_bodies P opts (res c) (rbody c) = Inr (Some r, b)"
    and "auth_failure r b = Inr False" and "statusCode r \<noteq> 200"
  shows "apiRequest_handler P s opts cb c = Done (invoke s cb (body r) (Response r))"
  using assms by (simp add: apiRequest_handler_def)

lemma handler_success:
  assumes "parse_bodies P opts (res c) (rbody c) = Inr (Some r, b)" and "statusCode r = 200"
  shows "apiRequest_handler P s opts cb c =
     Done (invoke s cb JNull (Value (case JSON_parse P b of Inl e \<Rightarrow> b | Inr d \<Rightarrow> d)))"
  using assms by (simp add: apiRequest_handler_def auth_failure_def)

lemma handler_success_example:
  \<open>apiRequest_handler json_text s demo_options cb (respond 200 (JStr ''{"data":[{"id":"1"}]}''))
     = Done (invoke s cb JNull (Value (JObj [(''data'', JArr [JObj [(''id'', JStr ''1'')]])])))\<close>
proof -
  have \<open>json_text ''{"data":[{"id":"1"}]}'' = Some (JObj [(''data'', JArr [JObj [(''id'', JStr ''1'')]])])\<close>
    by code_simp
  moreover have "json_text ''[object Object]'' = None"
    by code_simp
  ultimately show ?thesis
    by (simp add: apiRequest_handler_def parse_bodies_def auth_failure_def JSON_parse_def
          starts_with_brace_def demo_options_def respond_def)
qed

lemma json_option_degrades:
  "apiRequest_handler json_text s json_options cb (respond 200 (JStr ''{oops''))
     = Done (invoke s cb JNull (Value (JStr ''{oops'')))"
proof -
  have "json_text ''{oops'' = None"
    by code_simp
  then show ?thesis
    by (simp add: apiRequest_handler_def parse_bodies_def JSON_parse_def auth_failure_def
          starts_with_brace_def demo_options_def json_options_def respond_def)
qed

text \<open>
  The 400 branch of the classification: without a \<^verbatim>\<open>meta\<close> property the request is
  queued for a refresh, with one it goes to the callback.
\<close>

lemma bad_request_without_meta_queued:
  \<open>apiRequest_handler json_text s demo_options cb (respond 400 (JStr ''{"message":"expired"}''))
     = Done (refreshAccessToken s demo_options cb)\<close>
proof -
  have \<open>json_text ''{"message":"expired"}'' = Some (JObj [(''message'', JStr ''expired'')])\<close>
    by code_simp
  then show ?thesis
    by (simp add: apiRequest_handler_def parse_bodies_def JSON_parse_def auth_failure_def
          starts_with_brace_def demo_options_def respond_def)
qed

lemma bad_request_with_meta_surfaced:
  \<open>apiRequest_handler json_text s demo_options cb (respond 400 (JStr ''{"meta":{"code":7}}''))
     = Done (invoke s cb (JObj [(''meta'', JObj [(''code'', JNum ''7'')])])
         (Response \<lparr>statusCode = 400, body = JObj [(''meta'', JObj [(''code'', JNum ''7'')])]\<rparr>))\<close>
proof -
  have \<open>json_text ''{"meta":{"code":7}}'' = Some (JObj [(''meta'', JObj [(''code'', JNum ''7'')])])\<close>
    by code_simp
  then show ?thesis
    by (simp add: apiRequest_handler_def parse_bodies_def JSON_parse_def auth_failure_def
          starts_with_brace_def demo_options_def respond_def)
qed

text \<open>
  C5 (transport error).  The claim: a completion with an error and no response reaches
  the callback as \<^verbatim>\<open>(error, undefined)\<close>.  The handler never reads \<^verbatim>\<open>err\<close>; it reads
  \<^verbatim>\<open>res.statusCode\<close> of the missing response and throws a TypeError.  The connection is
  unchanged: no callback is invoked, nothing is queued, no refresh is started.
\<close>

theorem transport_error_raises:
  "apiRequest_handler P s opts cb (Completion e None JUndefined) = Raised TypeError s"
  by (simp add: apiRequest_handler_def parse_bodies_def starts_with_brace_def)

text \<open>
  C6 (status 200).  The claim: a body that fails to parse is passed through as it is.
  For a string body that starts with a brace and without \<^verbatim>\<open>options.json\<close>, the parse at
  line 122 stands outside the \<^verbatim>\<open>try\<close> of lines 135 to 139: on the body \<^verbatim>\<open>{oops\<close> the
  handler throws a SyntaxError and the callback is not invoked.
\<close>

theorem malformed_success_body_raises:
  "apiRequest_handler json_text s demo_options cb (respond 200 (JStr ''{oops'')) = Raised SyntaxError s"
proof -
  have "json_text ''{oops'' = None"
    by code_simp
  then show ?thesis
    by (simp add: apiRequest_handler_def parse_bodies_def JSON_parse_def
          starts_with_brace_def demo_options_def respond_def)
qed

text \<open>
  C7 (other statuses).  The claim: a status other than 200, 401 and a 400 without
  metadata reaches the callback.  On status 500 with the body \<^verbatim>\<open>{oops\<close> the parse at line
  122 throws before the status is read, and the callback is not invoked.
\<close>

theorem malformed_error_body_raises:
  "apiRequest_handler json_text s demo_options cb (respond 500 (JStr ''{oops'')) = Raised SyntaxError s"
proof -
  have "json_text ''{oops'' = None"
    by code_simp
  then show ?thesis
    by (simp add: apiRequest_handler_def parse_bodies_def JSON_parse_def
          starts_with_brace_def demo_options_def respond_def)
qed

end
